theory Spec2Isabelle
  imports Main "HOL-Library.AList"
begin

section \<open>Mate assemblies: the object store\<close>

text \<open>
  The development embeds \<^verbatim>\<open>jupyter_cadquery/mate_assembly/massembly.py\<close>.
  A Python \<^verbatim>\<open>MAssembly\<close> object has identity and is mutated in place through every
  reference to it, so objects live in a store indexed by references; a method receives the
  reference \<open>self\<close> and the state, and returns the new state. The state also carries the
  lines written by \<^verbatim>\<open>print\<close>.

  The geometry kernel (\<^verbatim>\<open>Location\<close>, \<^verbatim>\<open>Workplane\<close>) and the class \<^verbatim>\<open>Mate\<close> are not
  part of the file; their operations are the fields of a \<open>kernel\<close> record handed to the
  methods that use them, over arbitrary types \<open>'l\<close> of locations, \<open>'m\<close> of mates and
  \<open>'s\<close> of workplane objects.
\<close>

type_synonym ref = nat

datatype error = KeyError string | AttributeError

record ('l, 'm, 's) kernel =
  loc_mul :: "'l \<Rightarrow> 'l \<Rightarrow> 'l"           \<comment> \<open>\<^verbatim>\<open>a * b\<close> on locations\<close>
  loc_inverse :: "'l \<Rightarrow> 'l"             \<comment> \<open>\<^verbatim>\<open>a.inverse\<close>\<close>
  loc_identity :: "'l"                  \<comment> \<open>\<^verbatim>\<open>Location()\<close>\<close>
  mate_loc :: "'m \<Rightarrow> 'l"                \<comment> \<open>\<^verbatim>\<open>mate.loc\<close>\<close>
  mate_moved :: "'m \<Rightarrow> 'l \<Rightarrow> 'm"        \<comment> \<open>\<^verbatim>\<open>mate.moved(loc)\<close>\<close>
  obj_moved :: "'s \<Rightarrow> 'l \<Rightarrow> 's"         \<comment> \<open>\<^verbatim>\<open>Workplane(obj.val().moved(loc))\<close>\<close>

text \<open>An entry of the dictionary \<^verbatim>\<open>self.mates\<close>: \<^verbatim>\<open>{"mate": mate, "assembly": selector}\<close>.\<close>

record 'm mate_entry =
  entry_mate :: 'm
  entry_assembly :: string

text \<open>
  The fields of an \<^verbatim>\<open>MAssembly\<close>: \<open>name\<close>, \<open>obj\<close>, \<open>loc\<close> and \<open>children\<close> come from the
  base class, the other four are set by \<^verbatim>\<open>__init__\<close>. \<open>obj\<close> is \<open>None\<close> for Python's
  \<^verbatim>\<open>None\<close>. \<open>mates\<close> is a dictionary whose iteration order is its insertion order, kept
  as an association list.
\<close>

record ('l, 'm, 's) massembly =
  name :: string
  obj :: "'s option"
  loc :: 'l
  children :: "ref list"
  mates :: "(string \<times> 'm mate_entry) list"
  matelist :: "string list"
  origin :: "'m option"
  relocated :: bool

record ('l, 'm, 's) state =
  heap :: "ref \<Rightarrow> ('l, 'm, 's) massembly"
  out :: "string list"

text \<open>An attribute write \<^verbatim>\<open>r.field = v\<close> replaces the object stored at \<open>r\<close>.\<close>

definition upd ::
  "ref \<Rightarrow> (('l, 'm, 's) massembly \<Rightarrow> ('l, 'm, 's) massembly) \<Rightarrow> ('l, 'm, 's) state \<Rightarrow> ('l, 'm, 's) state"
where
  "upd r f s = s\<lparr>heap := (heap s)(r := f (heap s r))\<rparr>"

definition print :: "string \<Rightarrow> ('l, 'm, 's) state \<Rightarrow> ('l, 'm, 's) state" where
  "print line s = s\<lparr>out := out s @ [line]\<rparr>"

section \<open>Path resolution\<close>

text \<open>\<^verbatim>\<open>selector.split(">")\<close> and \<^verbatim>\<open>">".join(...)\<close>.\<close>

fun split_gt :: "string \<Rightarrow> string list" where
  "split_gt [] = [[]]"
| "split_gt (c # cs) =
     (if c = CHR ''>'' then [] # split_gt cs
      else (case split_gt cs of [] \<Rightarrow> [[c]] | w # ws \<Rightarrow> (c # w) # ws))"

fun join_gt :: "string list \<Rightarrow> string" where
  "join_gt [] = []"
| "join_gt [w] = w"
| "join_gt (w # ws) = w @ CHR ''>'' # join_gt ws"

lemma split_gt_not_Nil: "split_gt s \<noteq> []"
  by (induction s) (auto split: list.splits)

lemma length_join_gt_Cons:
  "length (join_gt (w # ws)) = length w + (if ws = [] then 0 else Suc (length (join_gt ws)))"
  by (cases ws) auto

lemma join_split_gt: "join_gt (split_gt s) = s"
proof (induction s)
  case Nil
  show ?case by simp
next
  case (Cons c cs)
  obtain w ws where sp: "split_gt cs = w # ws"
    using split_gt_not_Nil [of cs] by (cases "split_gt cs") auto
  show ?case
  proof (cases "c = CHR ''>''")
    case True
    with Cons sp show ?thesis by simp
  next
    case False
    with Cons sp show ?thesis by (cases ws) auto
  qed
qed

lemma join_tl_split_shorter:
  assumes "s \<noteq> []"
  shows "length (join_gt (tl (split_gt s))) < length s"
proof -
  obtain w ws where sp: "split_gt s = w # ws"
    using split_gt_not_Nil [of s] by (cases "split_gt s") auto
  have "length s = length (join_gt (w # ws))"
    using join_split_gt [of s] sp by simp
  then show ?thesis
    using assms sp by (auto simp: length_join_gt_Cons split: if_splits)
qed

text \<open>
  \<^verbatim>\<open>find_assembly\<close>: the loop over \<^verbatim>\<open>[self] + self.children\<close> returns from its first
  match, which \<open>find\<close> computes; the recursive call is on a strictly shorter selector.
\<close>

function find_assembly ::
  "(ref \<Rightarrow> ('l, 'm, 's) massembly) \<Rightarrow> ref \<Rightarrow> string \<Rightarrow> ref option"
where
  "find_assembly h self selector =
     (if selector = [] then Some self
      else
        let selectors = split_gt selector in
        (case find (\<lambda>a. name (h a) = hd selectors) (self # children (h self)) of
           Some a \<Rightarrow> find_assembly h a (join_gt (tl selectors))
         | None \<Rightarrow> None))"
  by pat_completeness auto
termination
  by (relation "measure (\<lambda>(h, self, selector). length selector)")
     (auto simp: join_tl_split_shorter)

declare find_assembly.simps [simp del]

section \<open>Mate registration\<close>

text \<open>
  \<^verbatim>\<open>mate\<close> stores the entry in the dictionary of \<open>self\<close> (an existing key keeps its
  place, a new one goes last), appends the name to the list of the node found, and sets
  that node's origin when \<open>is_origin\<close> holds. It has no \<^verbatim>\<open>else\<close> branch and always
  returns \<open>self\<close>.
\<close>

definition mate ::
  "ref \<Rightarrow> string \<Rightarrow> string \<Rightarrow> 'm \<Rightarrow> bool \<Rightarrow> ('l, 'm, 's) state \<Rightarrow> ref \<times> ('l, 'm, 's) state"
where
  "mate self nm selector m is_origin s =
     (case find_assembly (heap s) self selector of
        Some assembly \<Rightarrow>
          let s1 = upd self (\<lambda>a. a\<lparr>mates :=
                     AList.update nm \<lparr>entry_mate = m, entry_assembly = selector\<rparr> (mates a)\<rparr>) s;
              s2 = upd assembly (\<lambda>a. a\<lparr>matelist := matelist a @ [nm]\<rparr>) s1;
              s3 = (if is_origin then upd assembly (\<lambda>a. a\<lparr>origin := Some m\<rparr>) s2 else s2)
          in (self, s3)
      | None \<Rightarrow> (self, s))"

section \<open>Relocation\<close>

text \<open>
  \<^verbatim>\<open>set_origin\<close> calls itself on every child, so on a store whose \<open>children\<close> links form
  a cycle it does not return. The argument \<open>d\<close> bounds the depth of the calls: \<open>None\<close>
  is the run that did not return within the bound. A run that returns gives the exception
  raised, if any, and the state reached. \<^verbatim>\<open>self.obj.val()\<close> raises \<^verbatim>\<open>AttributeError\<close>
  when \<^verbatim>\<open>self.obj\<close> is \<^verbatim>\<open>None\<close>.
\<close>

definition set_origin_self ::
  "('l, 'm, 's) kernel \<Rightarrow> ref \<Rightarrow> ('l, 'm, 's) state \<Rightarrow> error + ('l, 'm, 's) state"
where
  \<comment> \<open>the \<^verbatim>\<open>if\<close> statement of \<^verbatim>\<open>set_origin\<close>: two attribute writes, \<open>obj\<close> then \<open>loc\<close>\<close>
  "set_origin_self k self s =
     (case origin (heap s self) of
        Some m \<Rightarrow>
          (case obj (heap s self) of
             None \<Rightarrow> Inl AttributeError
           | Some w \<Rightarrow>
               Inr (upd self (\<lambda>a. a\<lparr>loc := loc_identity k\<rparr>)
                     (upd self (\<lambda>a. a\<lparr>obj :=
                        Some (obj_moved k w (loc_inverse k (mate_loc k m)))\<rparr>) s)))
      | None \<Rightarrow> Inr s)"

fun set_origin ::
  "('l, 'm, 's) kernel \<Rightarrow> nat \<Rightarrow> ref \<Rightarrow> ('l, 'm, 's) state
     \<Rightarrow> ((error + unit) \<times> ('l, 'm, 's) state) option"
and set_origin_children ::
  "('l, 'm, 's) kernel \<Rightarrow> nat \<Rightarrow> ref list \<Rightarrow> ('l, 'm, 's) state
     \<Rightarrow> ((error + unit) \<times> ('l, 'm, 's) state) option"
where
  "set_origin k 0 self s = None"
| "set_origin k (Suc d) self s =
     (case set_origin_self k self s of
        Inl e \<Rightarrow> Some (Inl e, s)
      | Inr s1 \<Rightarrow> set_origin_children k d (children (heap s1 self)) s1)"
| "set_origin_children k d [] s = Some (Inr (), s)"
| "set_origin_children k d (c # cs) s =
     (case set_origin k d c s of
        None \<Rightarrow> None
      | Some (Inl e, s') \<Rightarrow> Some (Inl e, s')
      | Some (Inr u, s') \<Rightarrow> set_origin_children k d cs s')"

text \<open>
  The loop of \<^verbatim>\<open>relocate\<close> over \<^verbatim>\<open>self.mates.items()\<close>, by position in the dictionary:
  \<open>v\<close> is the entry itself, so the assignment to \<^verbatim>\<open>v["mate"]\<close> rewrites it in place.
  \<^verbatim>\<open>assy.origin\<close> raises \<^verbatim>\<open>AttributeError\<close> when \<^verbatim>\<open>find_assembly\<close> returned \<^verbatim>\<open>None\<close>.
  \<^verbatim>\<open>relocate\<close> runs the loop over the positions \<open>0..<length\<close> of the dictionary, whose
  length the loop does not change, so every read \<open>! i\<close> is in range.
\<close>

fun relocate_mates ::
  "('l, 'm, 's) kernel \<Rightarrow> ref \<Rightarrow> nat list \<Rightarrow> ('l, 'm, 's) state
     \<Rightarrow> (error + unit) \<times> ('l, 'm, 's) state"
where
  "relocate_mates k self [] s = (Inr (), s)"
| "relocate_mates k self (i # is) s =
     (let (key, v) = mates (heap s self) ! i in
      case find_assembly (heap s) self (entry_assembly v) of
        None \<Rightarrow> (Inl AttributeError, s)
      | Some assy \<Rightarrow>
          (case origin (heap s assy) of
             Some og \<Rightarrow>
               relocate_mates k self is
                 (upd self (\<lambda>a. a\<lparr>mates := (mates a)
                    [i := (key, v\<lparr>entry_mate :=
                       mate_moved k (entry_mate v) (loc_inverse k (mate_loc k og))\<rparr>)]\<rparr>) s)
           | None \<Rightarrow> relocate_mates k self is s))"

definition relocate ::
  "('l, 'm, 's) kernel \<Rightarrow> nat \<Rightarrow> ref \<Rightarrow> ('l, 'm, 's) state
     \<Rightarrow> ((error + unit) \<times> ('l, 'm, 's) state) option"
where
  "relocate k d self s =
     (if relocated (heap s self) then Some (Inr (), print ''already relocated'' s)
      else
        (case set_origin k d self s of
           None \<Rightarrow> None
         | Some (Inl e, s1) \<Rightarrow> Some (Inl e, s1)
         | Some (Inr u, s1) \<Rightarrow>
             (case relocate_mates k self [0..<length (mates (heap s1 self))] s1 of
                (Inl e, s2) \<Rightarrow> Some (Inl e, s2)
              | (Inr u', s2) \<Rightarrow> Some (Inr (), upd self (\<lambda>a. a\<lparr>relocated := True\<rparr>) s2))))"

section \<open>Assembling\<close>

text \<open>
  \<^verbatim>\<open>self.mates[key]\<close> raises \<^verbatim>\<open>KeyError\<close> on a missing key. The target mate is looked
  up only in the \<^verbatim>\<open>else\<close> branch, after the owner of the first mate has been found.
\<close>

definition assemble ::
  "('l, 'm, 's) kernel \<Rightarrow> ref \<Rightarrow> string \<Rightarrow> string \<Rightarrow> ('l, 'm, 's) state
     \<Rightarrow> (error + ref) \<times> ('l, 'm, 's) state"
where
  "assemble k self mate_obj mate_target s =
     (case map_of (mates (heap s self)) mate_obj of
        None \<Rightarrow> (Inl (KeyError mate_obj), s)
      | Some e_obj \<Rightarrow>
          let m_obj = entry_mate e_obj in
          (case find_assembly (heap s) self (entry_assembly e_obj) of
             None \<Rightarrow>
               (Inr self,
                print (''No assembly for '' @ [CHR 0x27] @ mate_obj @ [CHR 0x27]) s)
           | Some assy \<Rightarrow>
               (case map_of (mates (heap s self)) mate_target of
                  None \<Rightarrow> (Inl (KeyError mate_target), s)
                | Some e_target \<Rightarrow>
                    let m_target = entry_mate e_target in
                    (Inr self,
                     upd assy (\<lambda>a. a\<lparr>loc :=
                       loc_mul k (mate_loc k m_target) (loc_inverse k (mate_loc k m_obj))\<rparr>) s))))"

section \<open>Trees in the store\<close>

text \<open>
  The nodes below \<open>r\<close> in the order \<^verbatim>\<open>set_origin\<close> visits them, a node once for every
  path of \<open>children\<close> links that leads to it; \<open>None\<close> when a path is longer than the
  bound. The structure below \<open>r\<close> is a tree when no node occurs twice.
\<close>

fun preorder :: "(ref \<Rightarrow> ('l, 'm, 's) massembly) \<Rightarrow> nat \<Rightarrow> ref \<Rightarrow> ref list option"
and preorder_children ::
  "(ref \<Rightarrow> ('l, 'm, 's) massembly) \<Rightarrow> nat \<Rightarrow> ref list \<Rightarrow> ref list option"
where
  "preorder h 0 r = None"
| "preorder h (Suc d) r = map_option (Cons r) (preorder_children h d (children (h r)))"
| "preorder_children h d [] = Some []"
| "preorder_children h d (c # cs) =
     (case preorder h d c of
        None \<Rightarrow> None
      | Some xs \<Rightarrow> map_option (append xs) (preorder_children h d cs))"

section \<open>A concrete assembly\<close>

text \<open>
  Rigid motions of a line: a location is a translation by an integer, a mate and a
  workplane object are positions. The assembly is \<open>root > armL, armR\<close> with the arms'
  geometry at 3 and 7.
\<close>

definition line_kernel :: "(int, int, int) kernel" where
  "line_kernel =
     \<lparr>loc_mul = (\<lambda>a b. a + b), loc_inverse = (\<lambda>a. - a), loc_identity = 0,
      mate_loc = (\<lambda>m. m), mate_moved = (\<lambda>m l. l + m), obj_moved = (\<lambda>w l. l + w)\<rparr>"

definition node :: "string \<Rightarrow> int option \<Rightarrow> ref list \<Rightarrow> (int, int, int) massembly" where
  "node nm ob cs =
     \<lparr>name = nm, obj = ob, loc = 0, children = cs, mates = [], matelist = [],
      origin = None, relocated = False\<rparr>"

definition arms :: "(int, int, int) state" where
  "arms =
     \<lparr>heap = (\<lambda>r. node ''unused'' None [])
        (0 := node ''root'' None [1, 2], 1 := node ''armL'' (Some 3) [],
         2 := node ''armR'' (Some 7) []),
      out = []\<rparr>"

text \<open>
  \<open>wrists\<close> is the scenario of the assemble placement: mate \<open>wristL\<close> on \<open>armL\<close> at 0 and
  mate \<open>wristR\<close> on \<open>armR\<close> at 10, the latter as the origin of \<open>armR\<close>.
\<close>

definition wrists :: "(int, int, int) state" where
  "wrists =
     snd (mate 0 ''wristR'' ''armR'' 10 True (snd (mate 0 ''wristL'' ''armL'' 0 False arms)))"

text \<open>
  After the registration the node \<open>armL\<close> is renamed (\<^verbatim>\<open>armL.name = "elbow"\<close>), so the
  selector stored with \<open>wristL\<close> no longer resolves.
\<close>

definition renamed :: "(int, int, int) state" where
  "renamed = upd 1 (\<lambda>a. a\<lparr>name := ''elbow''\<rparr>) wrists"

text \<open>A mate registered as the origin of the root, a grouping node without geometry.\<close>

definition bare_origin :: "(int, int, int) state" where
  "bare_origin = snd (mate 0 ''base'' ''root'' 5 True arms)"


text \<open>A table with two legs of the same name, and a part whose name contains the separator.\<close>

definition legs :: "(int, int, int) state" where
  "legs =
     \<lparr>heap = (\<lambda>r. node ''unused'' None [])
        (0 := node ''table'' None [1, 2], 1 := node ''leg'' (Some 1) [],
         2 := node ''leg'' (Some 2) []),
      out = []\<rparr>"

definition gt_named :: "(int, int, int) state" where
  "gt_named =
     \<lparr>heap = (\<lambda>r. node ''unused'' None [])
        (0 := node ''root'' None [1], 1 := node ''a>b'' (Some 1) []),
      out = []\<rparr>"

section \<open>Notions used by the statements\<close>

text \<open>
  A name path from \<open>r\<close> to \<open>n\<close>: every segment is the name of exactly one of the
  candidates \<^verbatim>\<open>[self] + self.children\<close> of the node reached so far, and the path goes on
  from that candidate.
\<close>

fun name_path ::
  "(ref \<Rightarrow> ('l, 'm, 's) massembly) \<Rightarrow> ref \<Rightarrow> string list \<Rightarrow> ref \<Rightarrow> bool"
where
  "name_path h r [] n = (n = r)"
| "name_path h r (seg # segs) n =
     (\<exists>a \<in> set (r # children (h r)).
        name (h a) = seg \<and>
        (\<forall>b \<in> set (r # children (h r)). name (h b) = seg \<longrightarrow> b = a) \<and>
        name_path h a segs n)"

text \<open>
  Two states are related by \<open>kept\<close> when they differ at most in the fields \<open>obj\<close> and
  \<open>loc\<close> of their objects.
\<close>

definition kept :: "('l, 'm, 's) state \<Rightarrow> ('l, 'm, 's) state \<Rightarrow> bool" where
  "kept s s' \<longleftrightarrow>
     out s' = out s \<and>
     (\<forall>r. name (heap s' r) = name (heap s r) \<and> children (heap s' r) = children (heap s r) \<and>
          mates (heap s' r) = mates (heap s r) \<and> matelist (heap s' r) = matelist (heap s r) \<and>
          origin (heap s' r) = origin (heap s r) \<and> relocated (heap s' r) = relocated (heap s r))"

text \<open>
  The \<^verbatim>\<open>if\<close> statement of \<^verbatim>\<open>set_origin\<close> run over a list of nodes in turn, stopping at the
  first exception.
\<close>

fun visit ::
  "('l, 'm, 's) kernel \<Rightarrow> ref list \<Rightarrow> ('l, 'm, 's) state \<Rightarrow> (error + unit) \<times> ('l, 'm, 's) state"
where
  "visit k [] s = (Inr (), s)"
| "visit k (n # ns) s =
     (case set_origin_self k n s of
        Inl e \<Rightarrow> (Inl e, s)
      | Inr s1 \<Rightarrow> visit k ns s1)"


section \<open>Basic facts\<close>

lemma heap_upd [simp]: "heap (upd r f s) = (heap s)(r := f (heap s r))"
  by (simp add: upd_def)

lemma out_upd [simp]: "out (upd r f s) = out s"
  by (simp add: upd_def)

lemma heap_print [simp]: "heap (print line s) = heap s"
  by (simp add: print_def)

lemma out_print [simp]: "out (print line s) = out s @ [line]"
  by (simp add: print_def)

subsection \<open>Selectors\<close>

lemma split_gt_plain: "CHR ''>'' \<notin> set w \<Longrightarrow> split_gt w = [w]"
  by (induction w) auto

lemma split_gt_append:
  "CHR ''>'' \<notin> set w \<Longrightarrow> split_gt (w @ CHR ''>'' # rest) = w # split_gt rest"
  by (induction w) auto

lemma split_join_gt:
  "segs \<noteq> [] \<Longrightarrow> \<forall>seg \<in> set segs. CHR ''>'' \<notin> set seg \<Longrightarrow> split_gt (join_gt segs) = segs"
proof (induction segs rule: join_gt.induct)
  case 1
  then show ?case by simp
next
  case (2 w)
  then show ?case by (simp add: split_gt_plain)
next
  case (3 w v vs)
  then show ?case by (simp add: split_gt_append)
qed

lemma join_gt_Nil_iff: "join_gt segs = [] \<longleftrightarrow> segs = [] \<or> segs = [[]]"
  by (induction segs rule: join_gt.induct) auto

lemma find_first:
  "\<forall>b \<in> set pre. \<not> P b \<Longrightarrow> P a \<Longrightarrow> find P (pre @ a # post) = Some a"
  by (induction pre) auto

lemma find_unique:
  assumes "a \<in> set xs" and "P a" and "\<forall>b \<in> set xs. P b \<longrightarrow> b = a"
  shows "find P xs = Some a"
proof -
  obtain b where "find P xs = Some b"
    using assms(1,2) by (cases "find P xs") (auto simp: find_None_iff)
  moreover from this have "P b" "b \<in> set xs"
    by (auto simp: find_Some_iff)
  ultimately show ?thesis using assms(3) by auto
qed

lemma find_assembly_empty: "find_assembly h self [] = Some self"
  by (simp add: find_assembly.simps)

lemma find_assembly_step:
  assumes "find (\<lambda>b. name (h b) = seg) (self # children (h self)) = Some a"
    and "CHR ''>'' \<notin> set seg" and "\<forall>w \<in> set segs. CHR ''>'' \<notin> set w"
    and "join_gt (seg # segs) \<noteq> []"
  shows "find_assembly h self (join_gt (seg # segs)) = find_assembly h a (join_gt segs)"
proof -
  have "split_gt (join_gt (seg # segs)) = seg # segs"
    using assms(2,3) by (intro split_join_gt) auto
  then show ?thesis
    using assms(1,4) by (subst find_assembly.simps) (simp add: Let_def del: find.simps)
qed

subsection \<open>What \<^verbatim>\<open>set_origin\<close> keeps and what it visits\<close>

lemma kept_refl: "kept s s"
  by (simp add: kept_def)

lemma kept_trans: "kept s s' \<Longrightarrow> kept s' s'' \<Longrightarrow> kept s s''"
  by (simp add: kept_def)

lemma set_origin_self_kept: "set_origin_self k n s = Inr s1 \<Longrightarrow> kept s s1"
  by (auto simp: set_origin_self_def kept_def split: option.splits if_splits)




lemma visit_append:
  "visit k (xs @ ys) s =
     (case visit k xs s of (Inl e, s') \<Rightarrow> (Inl e, s') | (Inr u, s') \<Rightarrow> visit k ys s')"
  by (induction xs arbitrary: s) (auto split: sum.splits)

lemma visit_kept: "visit k ns s = (res, s') \<Longrightarrow> kept s s'"
proof (induction ns arbitrary: s)
  case Nil
  then show ?case by (simp add: kept_refl)
next
  case (Cons n ns)
  show ?case
  proof (cases "set_origin_self k n s")
    case (Inl e)
    with Cons.prems show ?thesis by (simp add: kept_refl)
  next
    case (Inr s1)
    with Cons.prems have "visit k ns s1 = (res, s')" by simp
    then have "kept s1 s'" by (rule Cons.IH)
    with set_origin_self_kept [OF Inr] show ?thesis by (rule kept_trans)
  qed
qed

lemma preorder_cong:
  "\<forall>r. children (h' r) = children (h r) \<Longrightarrow> preorder h' d r = preorder h d r"
  and preorder_children_cong:
  "\<forall>r. children (h' r) = children (h r) \<Longrightarrow> preorder_children h' d cs = preorder_children h d cs"
  by (induction h d r and h d cs rule: preorder_preorder_children.induct)
     (auto split: option.splits)

lemma kept_preorder_children:
  "kept s s' \<Longrightarrow> preorder_children (heap s') d cs = preorder_children (heap s) d cs"
  by (rule preorder_children_cong) (simp add: kept_def)

lemma set_origin_visit:
  "preorder (heap s) d r = Some ns \<Longrightarrow> set_origin k d r s = Some (visit k ns s)"
  and set_origin_children_visit:
  "preorder_children (heap s) d cs = Some ns \<Longrightarrow> set_origin_children k d cs s = Some (visit k ns s)"
proof (induction k d r s and k d cs s arbitrary: ns and ns
    rule: set_origin_set_origin_children.induct)
  case (1 k self s)
  then show ?case by simp
next
  case (2 k d self s)
  from "2.prems" obtain ms where ms: "preorder_children (heap s) d (children (heap s self)) = Some ms"
    and ns: "ns = self # ms"
    by auto
  show ?case
  proof (cases "set_origin_self k self s")
    case (Inl e)
    then show ?thesis by (simp add: ns)
  next
    case (Inr s1)
    have k1: "kept s s1" using Inr by (rule set_origin_self_kept)
    then have "children (heap s1 self) = children (heap s self)"
      by (simp add: kept_def)
    with ms k1 have "preorder_children (heap s1) d (children (heap s1 self)) = Some ms"
      by (simp add: kept_preorder_children)
    with Inr have "set_origin_children k d (children (heap s1 self)) s1 = Some (visit k ms s1)"
      by (rule "2.IH")
    with Inr show ?thesis by (simp add: ns)
  qed
next
  case (3 k d s)
  then show ?case by simp
next
  case (4 k d c cs s)
  from "4.prems" obtain xs ys where xs: "preorder (heap s) d c = Some xs"
    and ys: "preorder_children (heap s) d cs = Some ys" and ns: "ns = xs @ ys"
    by (auto split: option.splits)
  have c: "set_origin k d c s = Some (visit k xs s)"
    using xs by (rule "4.IH"(1))
  obtain r1 s1 where v: "visit k xs s = (r1, s1)"
    by (cases "visit k xs s")
  show ?case
  proof (cases r1)
    case (Inl e)
    with c v show ?thesis by (simp add: ns visit_append)
  next
    case (Inr u)
    have "kept s s1" using v by (rule visit_kept)
    with ys have "preorder_children (heap s1) d cs = Some ys"
      by (simp add: kept_preorder_children)
    with c v Inr have "set_origin_children k d cs s1 = Some (visit k ys s1)"
      by (intro "4.IH"(2)) auto
    with c v Inr show ?thesis by (simp add: ns visit_append)
  qed
qed

lemma set_origin_self_heap:
  assumes "set_origin_self k n s = Inr s1"
  shows "(\<forall>x. x \<noteq> n \<longrightarrow> heap s1 x = heap s x) \<and>
         (case origin (heap s n) of
            None \<Rightarrow> heap s1 n = heap s n
          | Some m \<Rightarrow>
              (\<exists>w. obj (heap s n) = Some w \<and>
                   heap s1 n = (heap s n)\<lparr>obj := Some (obj_moved k w (loc_inverse k (mate_loc k m))),
                                           loc := loc_identity k\<rparr>))"
  using assms by (auto simp: set_origin_self_def split: option.splits)


lemma visit_fst:
  "fst (visit k ns s) =
     (if \<exists>n \<in> set ns. origin (heap s n) \<noteq> None \<and> obj (heap s n) = None
      then Inl AttributeError else Inr ())"
proof (induction ns arbitrary: s)
  case Nil
  show ?case by simp
next
  case (Cons n ns)
  show ?case
  proof (cases "set_origin_self k n s")
    case (Inl e)
    then show ?thesis by (auto simp: set_origin_self_def split: option.splits)
  next
    case (Inr s1)
    note h1 = set_origin_self_heap [OF Inr]
    have bad: "(origin (heap s1 x) \<noteq> None \<and> obj (heap s1 x) = None) \<longleftrightarrow>
               (origin (heap s x) \<noteq> None \<and> obj (heap s x) = None)" for x
      using h1 by (cases "x = n") (auto split: option.splits)
    have n: "\<not> (origin (heap s n) \<noteq> None \<and> obj (heap s n) = None)"
      using h1 by (auto split: option.splits)
    have "fst (visit k (n # ns) s) = fst (visit k ns s1)"
      using Inr by simp
    also have "\<dots> = (if \<exists>x \<in> set ns. origin (heap s x) \<noteq> None \<and> obj (heap s x) = None
      then Inl AttributeError else Inr ())"
      by (simp only: Cons.IH bad)
    finally show ?thesis using n by auto
  qed
qed


lemma relocate_sets_flag:
  assumes "relocate k d self s = Some (Inr u, s')"
  shows "relocated (heap s' self)"
  using assms
  by (auto simp: relocate_def split: if_splits option.splits sum.splits prod.splits)

text \<open>
  The bound on the depth of the calls is a device of the model only: once it is large enough
  for the traversal, a larger one gives the same run.
\<close>

lemma preorder_Suc: "preorder h d r = Some ns \<Longrightarrow> preorder h (Suc d) r = Some ns"
  and preorder_children_Suc:
    "preorder_children h d cs = Some ns \<Longrightarrow> preorder_children h (Suc d) cs = Some ns"
proof (induction h d r and h d cs arbitrary: ns and ns rule: preorder_preorder_children.induct)
  case (1 h r)
  then show ?case by simp
next
  case (2 h d r)
  then obtain ms where "preorder_children h d (children (h r)) = Some ms" and "ns = r # ms"
    by auto
  with "2.IH" show ?case by simp
next
  case (3 h d)
  then show ?case by simp
next
  case (4 h d c cs)
  from "4.prems" obtain xs ys where xs: "preorder h d c = Some xs"
    and ys: "preorder_children h d cs = Some ys" and ns: "ns = xs @ ys"
    by (auto split: option.splits)
  have a: "preorder h (Suc d) c = Some xs"
    using xs by (rule "4.IH"(1))
  have b: "preorder_children h (Suc d) cs = Some ys"
    using xs ys by (rule "4.IH"(2))
  show ?case
    unfolding preorder_children.simps a b ns by simp
qed

lemma preorder_mono:
  assumes "d \<le> d'" and "preorder h d r = Some ns"
  shows "preorder h d' r = Some ns"
  using assms
proof (induction rule: dec_induct)
  case base
  then show ?case .
next
  case (step n)
  then have "preorder h n r = Some ns" by simp
  then show ?case by (rule preorder_Suc)
qed

lemma set_origin_bound:
  assumes "preorder (heap s) d self = Some ns" and "d \<le> d'"
  shows "set_origin k d' self s = set_origin k d self s"
proof -
  have "preorder (heap s) d' self = Some ns"
    using assms(2,1) by (rule preorder_mono)
  then have "set_origin k d' self s = Some (visit k ns s)"
    by (rule set_origin_visit)
  with set_origin_visit [OF assms(1)] show ?thesis by simp
qed

subsection \<open>The loop over the registry\<close>







subsection \<open>Registration on a selector that does not resolve\<close>

lemma mate_unresolved:
  assumes "find_assembly (heap s) self selector = None"
  shows "mate self nm selector m is_origin s = (self, s)"
  using assms by (simp add: mate_def)

section \<open>Assembling: placement, frame and failures\<close>

text \<open>
  C1. When both mate names are registered with \<open>self\<close> and the selector stored with the
  first one resolves to the node \<open>x\<close>, \<^verbatim>\<open>assemble\<close> returns \<open>self\<close> and the location of
  \<open>x\<close> afterwards is exactly the location of the second mate multiplied by the inverse of
  the location of the first.
\<close>

theorem assemble_places_owner:
  assumes "map_of (mates (heap s self)) mate_obj = Some ea"
    and "map_of (mates (heap s self)) mate_target = Some eb"
    and "find_assembly (heap s) self (entry_assembly ea) = Some x"
  shows "fst (assemble k self mate_obj mate_target s) = Inr self \<and>
         loc (heap (snd (assemble k self mate_obj mate_target s)) x) =
           loc_mul k (mate_loc k (entry_mate eb)) (loc_inverse k (mate_loc k (entry_mate ea)))"
  using assms by (simp add: assemble_def)

theorem assemble_places_owner_witness:
  "fst (assemble line_kernel 0 ''wristL'' ''wristR'' wrists) = Inr 0 \<and>
   loc (heap (snd (assemble line_kernel 0 ''wristL'' ''wristR'' wrists)) 1) = 10"
proof -
  have a: "map_of (mates (heap wrists 0)) ''wristL'' =
      Some \<lparr>entry_mate = 0, entry_assembly = ''armL''\<rparr>"
    by code_simp
  have b: "map_of (mates (heap wrists 0)) ''wristR'' =
      Some \<lparr>entry_mate = 10, entry_assembly = ''armR''\<rparr>"
    by code_simp
  have c: "find_assembly (heap wrists) 0
      (entry_assembly \<lparr>entry_mate = 0 :: int, entry_assembly = ''armL''\<rparr>) = Some 1"
    by code_simp
  show ?thesis
    using assemble_places_owner [OF a b c, of line_kernel] by (simp add: line_kernel_def)
qed

text \<open>
  C8. With both mate names registered, \<^verbatim>\<open>assemble\<close> changes at most the field \<open>loc\<close> of the
  node the first mate's selector resolves to: the state afterwards is the state before with
  that one field replaced, so every other object, every other field of that object and the
  printed lines are as before. When the selector does not resolve, the objects are as before
  and one line is printed.
\<close>

theorem assemble_frame:
  assumes "map_of (mates (heap s self)) mate_obj = Some ea"
    and "map_of (mates (heap s self)) mate_target = Some eb"
  shows "case find_assembly (heap s) self (entry_assembly ea) of
           Some x \<Rightarrow>
             (\<exists>l. assemble k self mate_obj mate_target s =
                (Inr self, s\<lparr>heap := (heap s)(x := (heap s x)\<lparr>loc := l\<rparr>)\<rparr>))
         | None \<Rightarrow>
             assemble k self mate_obj mate_target s =
               (Inr self,
                s\<lparr>out := out s @ [''No assembly for '' @ [CHR 0x27] @ mate_obj @ [CHR 0x27]]\<rparr>)"
  using assms by (auto simp: assemble_def upd_def print_def split: option.splits)

theorem assemble_frame_witness:
  "assemble line_kernel 0 ''wristL'' ''wristR'' wrists =
     (Inr 0, wrists\<lparr>heap := (heap wrists)(1 := (heap wrists 1)\<lparr>loc := 10\<rparr>)\<rparr>) \<and>
   assemble line_kernel 0 ''wristL'' ''wristR'' renamed =
     (Inr 0, renamed\<lparr>out := [''No assembly for '' @ [CHR 0x27] @ ''wristL'' @ [CHR 0x27]]\<rparr>)"
proof -
  have a: "map_of (mates (heap renamed 0)) ''wristL'' =
      Some \<lparr>entry_mate = 0, entry_assembly = ''armL''\<rparr>"
    by code_simp
  have b: "map_of (mates (heap renamed 0)) ''wristR'' =
      Some \<lparr>entry_mate = 10, entry_assembly = ''armR''\<rparr>"
    by code_simp
  have c: "find_assembly (heap renamed) 0
      (entry_assembly \<lparr>entry_mate = 0 :: int, entry_assembly = ''armL''\<rparr>) = None"
    by code_simp
  have o: "out renamed = []"
    by code_simp
  have a': "map_of (mates (heap wrists 0)) ''wristL'' =
      Some \<lparr>entry_mate = 0, entry_assembly = ''armL''\<rparr>"
    by code_simp
  have b': "map_of (mates (heap wrists 0)) ''wristR'' =
      Some \<lparr>entry_mate = 10, entry_assembly = ''armR''\<rparr>"
    by code_simp
  have c': "find_assembly (heap wrists) 0
      (entry_assembly \<lparr>entry_mate = 0 :: int, entry_assembly = ''armL''\<rparr>) = Some 1"
    by code_simp
  have l: "loc (heap (snd (assemble line_kernel 0 ''wristL'' ''wristR'' wrists)) 1) = 10"
    by code_simp
  from assemble_frame [OF a' b', of line_kernel] c' obtain l' where
    r: "assemble line_kernel 0 ''wristL'' ''wristR'' wrists =
      (Inr 0, wrists\<lparr>heap := (heap wrists)(1 := (heap wrists 1)\<lparr>loc := l'\<rparr>)\<rparr>)"
    by auto
  with l have "l' = 10" by simp
  with r assemble_frame [OF a b, of line_kernel] c o show ?thesis
    by simp
qed

text \<open>
  C9, as amended. \<^verbatim>\<open>assemble\<close> raises \<^verbatim>\<open>KeyError\<close> and leaves the state as it was when the
  first mate name is not registered, and when the first is registered, its selector
  resolves and the second mate name is not registered. When the selector of the first mate
  does not resolve, the second name is never looked up: whatever it is, the call prints its
  diagnostic and returns \<open>self\<close>.
\<close>

theorem assemble_key_error:
  "(map_of (mates (heap s self)) mate_obj = None \<longrightarrow>
      assemble k self mate_obj mate_target s = (Inl (KeyError mate_obj), s)) \<and>
   (map_of (mates (heap s self)) mate_obj = Some ea \<and>
    find_assembly (heap s) self (entry_assembly ea) = Some x \<and>
    map_of (mates (heap s self)) mate_target = None \<longrightarrow>
      assemble k self mate_obj mate_target s = (Inl (KeyError mate_target), s)) \<and>
   (map_of (mates (heap s self)) mate_obj = Some ea \<and>
    find_assembly (heap s) self (entry_assembly ea) = None \<longrightarrow>
      assemble k self mate_obj mate_target s =
        (Inr self,
         s\<lparr>out := out s @ [''No assembly for '' @ [CHR 0x27] @ mate_obj @ [CHR 0x27]]\<rparr>))"
  by (simp add: assemble_def print_def)

theorem assemble_key_error_witness:
  "assemble line_kernel 0 ''wristX'' ''wristR'' wrists = (Inl (KeyError ''wristX''), wrists) \<and>
   assemble line_kernel 0 ''wristL'' ''wristX'' wrists = (Inl (KeyError ''wristX''), wrists) \<and>
   assemble line_kernel 0 ''wristL'' ''wristX'' renamed =
     (Inr 0, renamed\<lparr>out := [''No assembly for '' @ [CHR 0x27] @ ''wristL'' @ [CHR 0x27]]\<rparr>)"
proof -
  have a: "map_of (mates (heap wrists 0)) ''wristX'' = None"
    by code_simp
  have b: "map_of (mates (heap wrists 0)) ''wristL'' =
      Some \<lparr>entry_mate = 0, entry_assembly = ''armL''\<rparr>"
    by code_simp
  have c: "find_assembly (heap wrists) 0
      (entry_assembly \<lparr>entry_mate = 0 :: int, entry_assembly = ''armL''\<rparr>) = Some 1"
    by code_simp
  have b': "map_of (mates (heap renamed 0)) ''wristL'' =
      Some \<lparr>entry_mate = 0, entry_assembly = ''armL''\<rparr>"
    by code_simp
  have c': "find_assembly (heap renamed) 0
      (entry_assembly \<lparr>entry_mate = 0 :: int, entry_assembly = ''armL''\<rparr>) = None"
    by code_simp
  have o: "out renamed = []"
    by code_simp
  show ?thesis
    using assemble_key_error [of wrists 0 "''wristX''" line_kernel "''wristR''"]
      assemble_key_error [of wrists 0 "''wristL''" line_kernel "''wristX''"
        "\<lparr>entry_mate = 0, entry_assembly = ''armL''\<rparr>" 1]
      assemble_key_error [of renamed 0 "''wristL''" line_kernel "''wristX''"
        "\<lparr>entry_mate = 0, entry_assembly = ''armL''\<rparr>"]
      a b c b' c' o
    by simp
qed

text \<open>
  The claim as stated fails where the owner of the first mate does not resolve: the second
  name is not registered, yet the call returns \<open>self\<close> after printing its diagnostic.
\<close>

theorem assemble_key_error_counterexample:
  "map_of (mates (heap renamed 0)) ''wristX'' = None \<and>
   fst (assemble line_kernel 0 ''wristL'' ''wristX'' renamed) = Inr 0 \<and>
   out (snd (assemble line_kernel 0 ''wristL'' ''wristX'' renamed)) =
     [''No assembly for '' @ [CHR 0x27] @ ''wristL'' @ [CHR 0x27]]"
  by code_simp

section \<open>Registering a mate on a selector that does not resolve\<close>

text \<open>
  C7. A call of \<^verbatim>\<open>mate\<close> whose selector does not resolve is to leave the registry, the mate
  lists and the origins unchanged, to emit a diagnostic, to raise nothing and to return
  \<open>self\<close>. On the assembly \<open>arms\<close> the selector \<^verbatim>\<open>armX\<close> does not resolve; the call returns
  \<open>self\<close> with the state it was given, and the printed lines are still none: the diagnostic
  is missing. \<^verbatim>\<open>assemble\<close> and \<^verbatim>\<open>find\<close> print on the same condition; \<^verbatim>\<open>mate\<close> has no
  \<^verbatim>\<open>else\<close> branch.
\<close>

theorem mate_unresolved_silent:
  "find_assembly (heap arms) 0 ''armX'' = None \<and>
   mate 0 ''wristL'' ''armX'' (0 :: int) True arms = (0, arms) \<and>
   out (snd (mate 0 ''wristL'' ''armX'' (0 :: int) True arms)) = []"
proof -
  have a: "find_assembly (heap arms) 0 ''armX'' = None"
    by code_simp
  have o: "out arms = []"
    by code_simp
  from mate_unresolved [OF a] a o show ?thesis
    by simp
qed

section \<open>Relocating twice\<close>

text \<open>
  C4. On a node whose \<open>relocated\<close> flag is set, \<^verbatim>\<open>relocate\<close> returns normally with the
  objects unchanged and the line \<^verbatim>\<open>already relocated\<close> printed; and after a call of
  \<^verbatim>\<open>relocate\<close> that returned normally, a second call does exactly that to the state the
  first call left.
\<close>

theorem relocate_twice:
  "(relocated (heap s self) \<longrightarrow>
      relocate k d self s = Some (Inr (), s\<lparr>out := out s @ [''already relocated'']\<rparr>)) \<and>
   (relocate k d self s = Some (Inr (), s') \<longrightarrow>
      relocate k d' self s' = Some (Inr (), s'\<lparr>out := out s' @ [''already relocated'']\<rparr>))"
proof (intro conjI impI)
  assume "relocated (heap s self)"
  then show "relocate k d self s = Some (Inr (), s\<lparr>out := out s @ [''already relocated'']\<rparr>)"
    by (simp add: relocate_def print_def)
next
  assume "relocate k d self s = Some (Inr (), s')"
  then have "relocated (heap s' self)"
    by (rule relocate_sets_flag)
  then show "relocate k d' self s' = Some (Inr (), s'\<lparr>out := out s' @ [''already relocated'']\<rparr>)"
    by (simp add: relocate_def print_def)
qed

theorem relocate_twice_witness:
  "map_option fst (relocate line_kernel 3 0 wrists) = Some (Inr ()) \<and>
   map_option fst (relocate line_kernel 3 0 (snd (the (relocate line_kernel 3 0 wrists)))) =
     Some (Inr ()) \<and>
   out (snd (the (relocate line_kernel 3 0 (snd (the (relocate line_kernel 3 0 wrists)))))) =
     [''already relocated'']"
proof -
  have a: "map_option fst (relocate line_kernel 3 0 wrists) = Some (Inr ())"
    by code_simp
  have o: "out (snd (the (relocate line_kernel 3 0 wrists))) = []"
    by code_simp
  from a have r: "relocate line_kernel 3 0 wrists =
      Some (Inr (), snd (the (relocate line_kernel 3 0 wrists)))"
    by (cases "relocate line_kernel 3 0 wrists") auto
  show ?thesis
    using relocate_twice [of wrists 0 line_kernel 3 "snd (the (relocate line_kernel 3 0 wrists))" 3]
      r a o
    by simp
qed

section \<open>Resolving paths\<close>

text \<open>
  C6. The first segment of a selector is resolved to the first node, in the order
  \<^verbatim>\<open>[self] + self.children\<close>, whose name is the segment, whatever nodes of the same name
  come after it, and the rest of the selector is resolved from that node; a selector of one
  segment resolves to that node. Nothing is raised or printed, \<^verbatim>\<open>find_assembly\<close> only
  reads the store.
\<close>

theorem find_assembly_first_match:
  assumes "selector \<noteq> []"
    and "self # children (h self) = pre @ a # post"
    and "\<forall>b \<in> set pre. name (h b) \<noteq> hd (split_gt selector)"
    and "name (h a) = hd (split_gt selector)"
  shows "find_assembly h self selector = find_assembly h a (join_gt (tl (split_gt selector))) \<and>
         (tl (split_gt selector) = [] \<longrightarrow> find_assembly h self selector = Some a)"
proof -
  have "find (\<lambda>b. name (h b) = hd (split_gt selector)) (self # children (h self)) = Some a"
    unfolding assms(2) using assms(3,4) by (intro find_first) auto
  with assms(1)
  have "find_assembly h self selector = find_assembly h a (join_gt (tl (split_gt selector)))"
    by (subst find_assembly.simps) (simp add: Let_def del: find.simps)
  then show ?thesis by (auto simp: find_assembly_empty)
qed

theorem find_assembly_first_match_witness:
  "find_assembly (heap legs) 0 ''leg'' = Some 1"
proof -
  have a: "0 # children (heap legs 0) = [0] @ 1 # [2]"
    by code_simp
  have b: "\<forall>b \<in> set [0]. name (heap legs b) \<noteq> hd (split_gt ''leg'')"
    by code_simp
  have c: "name (heap legs 1) = hd (split_gt ''leg'')"
    by code_simp
  have d: "tl (split_gt ''leg'') = []"
    by code_simp
  have e: "''leg'' \<noteq> []"
    by simp
  from find_assembly_first_match [OF e a b c]
  have "tl (split_gt ''leg'') = [] \<longrightarrow> find_assembly (heap legs) 0 ''leg'' = Some 1"
    by (rule conjunct2)
  with d show ?thesis
    by (rule rev_mp)
qed

text \<open>
  C5, as amended. The empty selector resolves to the node itself; and a name path from
  \<open>self\<close> to \<open>n\<close> whose segments do not contain the separator and whose last segment is not
  empty resolves, joined with the separator, to \<open>n\<close>.
\<close>

theorem find_assembly_path:
  "find_assembly h self [] = Some self \<and>
   (name_path h self segs n \<and> (\<forall>seg \<in> set segs. CHR ''>'' \<notin> set seg) \<and>
    (segs \<noteq> [] \<longrightarrow> last segs \<noteq> []) \<longrightarrow>
      find_assembly h self (join_gt segs) = Some n)"
proof (intro conjI impI)
  show "find_assembly h self [] = Some self" by (rule find_assembly_empty)
next
  assume "name_path h self segs n \<and> (\<forall>seg \<in> set segs. CHR ''>'' \<notin> set seg) \<and>
    (segs \<noteq> [] \<longrightarrow> last segs \<noteq> [])"
  then show "find_assembly h self (join_gt segs) = Some n"
  proof (induction segs arbitrary: self)
    case Nil
    then show ?case by (simp add: find_assembly_empty)
  next
    case (Cons seg segs)
    from Cons.prems obtain a where a: "a \<in> set (self # children (h self))" "name (h a) = seg"
      "\<forall>b \<in> set (self # children (h self)). name (h b) = seg \<longrightarrow> b = a" "name_path h a segs n"
      by auto
    have f: "find (\<lambda>b. name (h b) = seg) (self # children (h self)) = Some a"
      using a(1,2,3) by (intro find_unique) auto
    have ne: "join_gt (seg # segs) \<noteq> []"
      using Cons.prems by (auto simp: join_gt_Nil_iff)
    have "find_assembly h self (join_gt (seg # segs)) = find_assembly h a (join_gt segs)"
      using f ne Cons.prems by (intro find_assembly_step) auto
    also have "\<dots> = Some n"
      using a(4) Cons.prems by (intro Cons.IH) auto
    finally show ?case .
  qed
qed

theorem find_assembly_path_witness:
  "find_assembly (heap arms) 0 (join_gt [''root'', ''armR'']) = Some 2"
proof -
  have a: "name_path (heap arms) 0 [''root'', ''armR''] 2"
    by code_simp
  have b: "\<forall>seg \<in> set [''root'', ''armR'']. CHR ''>'' \<notin> set seg"
    by simp
  have c: "[''root'', ''armR''] \<noteq> [] \<longrightarrow> last [''root'', ''armR''] \<noteq> []"
    by simp
  from find_assembly_path [of "heap arms" 0 "[''root'', ''armR'']" 2] a b c
  show ?thesis by blast
qed

text \<open>
  The claim as stated fails for a part named \<^verbatim>\<open>a>b\<close>: the name is a path of one segment
  to the part, and the selector is split at the separator inside the name.
\<close>

theorem find_assembly_path_counterexample:
  "name_path (heap gt_named) 0 [''a>b''] 1 \<and>
   find_assembly (heap gt_named) 0 (join_gt [''a>b'']) = None"
  by code_simp

section \<open>The first relocation\<close>







text \<open>
  C10. Over the nodes that \<^verbatim>\<open>set_origin\<close> visits from \<open>self\<close>: when every node with an
  origin has geometry, \<^verbatim>\<open>set_origin\<close> returns normally; when some node has an origin and
  no geometry, \<^verbatim>\<open>set_origin\<close> raises \<^verbatim>\<open>AttributeError\<close> instead of skipping the node, and
  so does the first call of \<^verbatim>\<open>relocate\<close>.
\<close>

theorem set_origin_needs_geometry:
  assumes "preorder (heap s) d self = Some ns"
  shows "((\<forall>n \<in> set ns. origin (heap s n) \<noteq> None \<longrightarrow> obj (heap s n) \<noteq> None) \<longrightarrow>
            (\<exists>s'. set_origin k d self s = Some (Inr (), s'))) \<and>
         ((\<exists>n \<in> set ns. origin (heap s n) \<noteq> None \<and> obj (heap s n) = None) \<longrightarrow>
            (\<exists>s'. set_origin k d self s = Some (Inl AttributeError, s')) \<and>
            (\<not> relocated (heap s self) \<longrightarrow>
               (\<exists>s'. relocate k d self s = Some (Inl AttributeError, s'))))"
proof -
  have so: "set_origin k d self s = Some (visit k ns s)"
    using assms by (rule set_origin_visit)
  have v: "visit k ns s = (fst (visit k ns s), snd (visit k ns s))"
    by simp
  show ?thesis
  proof (cases "\<exists>n \<in> set ns. origin (heap s n) \<noteq> None \<and> obj (heap s n) = None")
    case True
    then have "fst (visit k ns s) = Inl AttributeError"
      by (simp add: visit_fst)
    with so v have r: "set_origin k d self s = Some (Inl AttributeError, snd (visit k ns s))"
      by simp
    then have "\<not> relocated (heap s self) \<longrightarrow>
        relocate k d self s = Some (Inl AttributeError, snd (visit k ns s))"
      by (simp add: relocate_def)
    with r True show ?thesis by blast
  next
    case False
    then have "fst (visit k ns s) = Inr ()"
      by (simp add: visit_fst)
    with so v have "set_origin k d self s = Some (Inr (), snd (visit k ns s))"
      by simp
    with False show ?thesis by blast
  qed
qed

theorem set_origin_needs_geometry_witness:
  "map_option fst (set_origin line_kernel 3 0 wrists) = Some (Inr ()) \<and>
   map_option fst (set_origin line_kernel 3 0 bare_origin) = Some (Inl AttributeError) \<and>
   map_option fst (relocate line_kernel 3 0 bare_origin) = Some (Inl AttributeError)"
proof -
  have p: "preorder (heap wrists) 3 0 = Some [0, 1, 2]"
    by code_simp
  have q: "preorder (heap bare_origin) 3 0 = Some [0, 1, 2]"
    by code_simp
  have good: "\<forall>n \<in> set [0, 1, 2]. origin (heap wrists n) \<noteq> None \<longrightarrow> obj (heap wrists n) \<noteq> None"
    by code_simp
  have bad: "\<exists>n \<in> set [0, 1, 2]. origin (heap bare_origin n) \<noteq> None \<and> obj (heap bare_origin n) = None"
    by code_simp
  have nr: "\<not> relocated (heap bare_origin 0)"
    by code_simp
  from set_origin_needs_geometry [OF p, of line_kernel] good
  have 1: "\<exists>s'. set_origin line_kernel 3 0 wrists = Some (Inr (), s')"
    by blast
  from set_origin_needs_geometry [OF q, of line_kernel] bad nr
  have 2: "\<exists>s'. set_origin line_kernel 3 0 bare_origin = Some (Inl AttributeError, s')"
    and 3: "\<exists>s'. relocate line_kernel 3 0 bare_origin = Some (Inl AttributeError, s')"
    by blast+
  from 1 2 3 show ?thesis by auto
qed

end
